theory Spec2Isabelle
  imports Complex_Main "HOL-Library.AList"
begin

section \<open>Python values used by both tools\<close>

text \<open>
  A Python \<open>str\<close> is modelled as a list of 8-bit characters, read as the code points
  U+0000 .. U+00FF. Exceptions are values of \<open>py_error\<close>; a function that can raise
  returns \<open>py_error + 'a\<close>.
\<close>

datatype py_error = ZeroDivisionError | ValueError

subsection \<open>Double-precision arithmetic\<close>

text \<open>
  A Python \<open>float\<close> is an IEEE 754 binary64 number. A finite double is a rational, and
  every arithmetic operation returns the exact result rounded to the nearest double, ties
  to the even mantissa. \<open>fl\<close> is that rounding (53-bit mantissa, gradual underflow below
  \<open>2^-1022\<close>); all values rounded in this development are at most 10000, far from overflow.
\<close>

function ilog2 :: "int \<Rightarrow> int" where
  "ilog2 n = (if n < 2 then 0 else 1 + ilog2 (n div 2))"
  by pat_completeness auto
termination
  by (relation "measure nat") auto

declare ilog2.simps [simp del]

definition pow2 :: "int \<Rightarrow> rat" where
  "pow2 k = (if 0 \<le> k then 2 ^ nat k else 1 / 2 ^ nat (- k))"

text \<open>Rounding a rational to the nearest integer, ties to even.\<close>

definition rhe :: "rat \<Rightarrow> int" where
  "rhe q = (let f = \<lfloor>q\<rfloor>; r = q - of_int f
            in if r < 1 / 2 then f
               else if 1 / 2 < r then f + 1
               else if even f then f else f + 1)"

text \<open>The binary exponent of a positive rational \<open>q\<close>: \<open>2^e \<le> q < 2^(e+1)\<close>.\<close>

definition expo :: "rat \<Rightarrow> int" where
  "expo q = (case quotient_of q of (a, b) \<Rightarrow>
               let k = ilog2 a - ilog2 b
               in if pow2 k \<le> q then k else k - 1)"

definition fl :: "rat \<Rightarrow> rat" where
  "fl q = (if q = 0 then 0
           else let u = pow2 (max (expo \<bar>q\<bar>) (- 1022) - 52)
                in of_int (rhe (q / u)) * u)"

text \<open>
  \<open>round(x, 2)\<close> on a float: the exact value of \<open>x\<close> is rounded to two decimals, ties to
  even, and the decimal result is converted back to the nearest double.
\<close>

definition py_round2 :: "rat \<Rightarrow> rat" where
  "py_round2 x = fl (of_int (rhe (x * 100)) / 100)"

text \<open>
  \<open>(a / b) * 100\<close> for two \<open>int\<close>s: true division raises on a zero divisor, otherwise it
  is correctly rounded; the product with \<open>100\<close> is rounded again.
\<close>

definition py_truediv :: "nat \<Rightarrow> nat \<Rightarrow> py_error + rat" where
  "py_truediv a b = (if b = 0 then Inl ZeroDivisionError else Inr (fl (of_nat a / of_nat b)))"

definition percentage :: "nat \<Rightarrow> nat \<Rightarrow> py_error + rat" where
  "percentage a b = (case py_truediv a b of Inl e \<Rightarrow> Inl e | Inr q \<Rightarrow> Inr (fl (q * 100)))"

subsection \<open>String methods\<close>

text \<open>
  \<open>str.upper\<close>: the ASCII letters are mapped to their capitals. Of the other code points
  below U+0100, none has an upper-case form that contains \<open>A\<close>, \<open>C\<close>, \<open>G\<close> or \<open>T\<close>; they are
  left as they are.
\<close>

definition upper_char :: "char \<Rightarrow> char" where
  "upper_char c =
     (case map_of (zip ''abcdefghijklmnopqrstuvwxyz'' ''ABCDEFGHIJKLMNOPQRSTUVWXYZ'') c of
        Some u \<Rightarrow> u
      | None \<Rightarrow> c)"

definition upper :: "string \<Rightarrow> string" where
  "upper s = map upper_char s"

text \<open>
  The characters \<open>str.strip\<close> removes (those for which \<open>str.isspace\<close> holds): tab, line feed,
  vertical tab, form feed, carriage return, the separators U+001C .. U+001F, space, U+0085
  and U+00A0.
\<close>

definition isspace :: "char \<Rightarrow> bool" where
  "isspace c = (of_char c \<in> {9, 10, 11, 12, 13, 28, 29, 30, 31, 32, 133, 160 :: nat})"

definition strip :: "string \<Rightarrow> string" where
  "strip s = rev (dropWhile isspace (rev (dropWhile isspace s)))"

section \<open>The GC-content calculator\<close>

text \<open>\<open>re.sub(r'[^ATCG]', '', s)\<close> deletes every character that is not one of the four bases.\<close>

definition is_base :: "char \<Rightarrow> bool" where
  "is_base c = (c \<in> set ''ATCG'')"

definition re_sub_non_atcg :: "string \<Rightarrow> string" where
  "re_sub_non_atcg s = filter is_base s"

text \<open>The value of the local variable \<open>secuencia\<close> after the two assignments of \<open>calcular_gc\<close>.\<close>

definition filtered :: "string \<Rightarrow> string" where
  "filtered secuencia = re_sub_non_atcg (strip (upper secuencia))"

text \<open>
  \<open>calcular_gc\<close> returns the tuple \<open>(round(porcentaje, 2), count_g, count_c, count_a, count_t)\<close>.
  The division is guarded twice in the source: by the early return and by the conditional
  expression; on the path that reaches the division \<open>total\<close> is positive.
\<close>

definition calcular_gc :: "string \<Rightarrow> rat \<times> nat \<times> nat \<times> nat \<times> nat" where
  "calcular_gc secuencia =
     (let secuencia = filtered secuencia;
          total = length secuencia
      in if total = 0 then (0, 0, 0, 0, 0)
         else
           let count_g = count_list secuencia CHR ''G'';
               count_c = count_list secuencia CHR ''C'';
               count_a = count_list secuencia CHR ''A'';
               count_t = count_list secuencia CHR ''T'';
               count_gc = count_g + count_c;
               porcentaje = (if total > 0
                             then fl (fl (of_nat count_gc / of_nat total) * 100)
                             else 0)
           in (py_round2 porcentaje, count_g, count_c, count_a, count_t))"

text \<open>
  The formula of the specification, \<open>round(100 * (G+C)/total, 2)\<close>, read as a Python
  expression (\<open>spec_gc_float\<close>: the integer product is exact, the division is rounded once)
  and read over the rationals with the usual two-decimal rounding (\<open>spec_gc_exact\<close>).
\<close>

definition spec_gc_float :: "nat \<Rightarrow> nat \<Rightarrow> rat" where
  "spec_gc_float gc n = py_round2 (fl (of_nat (100 * gc) / of_nat n))"

definition spec_gc_exact :: "nat \<Rightarrow> nat \<Rightarrow> rat" where
  "spec_gc_exact gc n = of_int (rhe (100 * (of_nat (100 * gc) / of_nat n))) / 100"

subsection \<open>The multi-record parser\<close>

text \<open>
  \<open>str.splitlines\<close> ends a line at a line feed, a carriage return (a carriage return and a
  line feed together count once), a vertical tab, a form feed, the separators
  U+001C .. U+001E and U+0085; the terminators are dropped and a final terminator opens no
  empty last line.
\<close>

definition is_linebreak :: "char \<Rightarrow> bool" where
  "is_linebreak c = (of_char c \<in> {10, 11, 12, 13, 28, 29, 30, 133 :: nat})"

fun splitlines_from :: "string \<Rightarrow> string \<Rightarrow> string list" where
  "splitlines_from cur [] = (if cur = [] then [] else [cur])"
| "splitlines_from cur [c] = (if is_linebreak c then [cur] else [cur @ [c]])"
| "splitlines_from cur (c # d # s) =
     (if c = CHR 0x0D \<and> d = CHR 0x0A then cur # splitlines_from [] s
      else if is_linebreak c then cur # splitlines_from [] (d # s)
      else splitlines_from (cur @ [c]) (d # s))"

definition splitlines :: "string \<Rightarrow> string list" where
  "splitlines s = splitlines_from [] s"

text \<open>\<open>linea.startswith('>')\<close> and the identifier \<open>linea[1:].strip()\<close> of a header line.\<close>

definition is_header :: "string \<Rightarrow> bool" where
  "is_header linea = (case linea of [] \<Rightarrow> False | c # _ \<Rightarrow> c = CHR ''>'')"

definition header_id :: "string \<Rightarrow> string" where
  "header_id linea = strip (drop 1 linea)"

text \<open>
  The dictionary \<open>secuencias\<close> is an association list in insertion order; an assignment to
  a key that is present replaces its value in place, as a Python \<open>dict\<close> does. \<open>store\<close> is
  the guarded assignment \<open>if current_id: secuencias[current_id] = ''.join(current_seq)\<close>,
  which occurs twice in the source: at every header line and after the loop.
\<close>

definition store :: "(string \<times> string) list \<Rightarrow> string \<Rightarrow> string list \<Rightarrow> (string \<times> string) list" where
  "store secuencias current_id current_seq =
     (if current_id \<noteq> [] then AList.update current_id (concat current_seq) secuencias
      else secuencias)"

fun parse_fasta_loop ::
  "(string \<times> string) list \<Rightarrow> string \<Rightarrow> string list \<Rightarrow> string list \<Rightarrow> (string \<times> string) list" where
  "parse_fasta_loop secuencias current_id current_seq [] =
     store secuencias current_id current_seq"
| "parse_fasta_loop secuencias current_id current_seq (linea # lineas) =
     (if is_header linea
      then parse_fasta_loop (store secuencias current_id current_seq) (header_id linea) [] lineas
      else parse_fasta_loop secuencias current_id (current_seq @ [strip linea]) lineas)"

definition parse_fasta :: "string \<Rightarrow> (string \<times> string) list" where
  "parse_fasta contenido = parse_fasta_loop [] [] [] (splitlines contenido)"

section \<open>The FASTQ quality analyzer\<close>

subsection \<open>Reading and aggregating records\<close>

text \<open>
  A record as \<open>SeqIO.parse\<close> yields it. The parser is a library generator: each request
  for the next record either yields one or raises \<open>ValueError\<close> on malformed input, so the
  decoded file is a list whose items are a record or an error.
\<close>

record seq_record =
  rec_id :: string
  seq :: string
  phred_quality :: "int list"

record fastq_data =
  lengths :: "nat list"
  qualities :: "int list list"
  ambiguous_bases :: "nat list"
  all_sequences :: "string list"
  nucleotide_counts :: "char \<rightharpoonup> nat list"
  total_reads :: nat

text \<open>
  \<open>nucleotide_counts\<close> is a \<open>defaultdict(lambda: [0]*150)\<close>: reading a missing key gives a
  fresh row of 150 zeros. Every row has 150 slots and the increment is guarded by
  \<open>pos < 150\<close>, so the list assignment is always in range.
\<close>

definition dd_get :: "(char \<rightharpoonup> nat list) \<Rightarrow> char \<Rightarrow> nat list" where
  "dd_get d base = (case d base of None \<Rightarrow> replicate 150 0 | Some row \<Rightarrow> row)"

definition increment :: "(char \<rightharpoonup> nat list) \<Rightarrow> char \<Rightarrow> nat \<Rightarrow> (char \<rightharpoonup> nat list)" where
  "increment d base pos = d(base \<mapsto> (dd_get d base)[pos := dd_get d base ! pos + 1])"

fun count_positions :: "nat \<Rightarrow> string \<Rightarrow> (char \<rightharpoonup> nat list) \<Rightarrow> (char \<rightharpoonup> nat list)" where
  "count_positions pos [] d = d"
| "count_positions pos (base # rest) d =
     count_positions (pos + 1) rest (if pos < 150 then increment d base pos else d)"

definition process_record :: "nat \<Rightarrow> seq_record \<Rightarrow> fastq_data \<Rightarrow> fastq_data" where
  "process_record i record d =
     d\<lparr>lengths := lengths d @ [length (seq record)],
       qualities := qualities d @ [phred_quality record],
       ambiguous_bases := ambiguous_bases d @ [count_list (seq record) CHR ''N''],
       all_sequences := all_sequences d @ [seq record],
       nucleotide_counts := count_positions 0 (seq record) (nucleotide_counts d),
       total_reads := i + 1\<rparr>"

definition empty_data :: fastq_data where
  "empty_data = \<lparr>lengths = [], qualities = [], ambiguous_bases = [], all_sequences = [],
                  nucleotide_counts = Map.empty, total_reads = 0\<rparr>"

text \<open>
  The \<open>for i, record in enumerate(...)\<close> loop. The next item is requested before the test
  \<open>i >= 10000\<close>, so an error at that item is raised and not skipped by the \<open>break\<close>.
\<close>

fun read_loop :: "nat \<Rightarrow> (py_error + seq_record) list \<Rightarrow> fastq_data \<Rightarrow> py_error + fastq_data" where
  "read_loop i [] d = Inr d"
| "read_loop i (Inl e # rest) d = Inl e"
| "read_loop i (Inr record # rest) d =
     (if i \<ge> 10000 then Inr d else read_loop (i + 1) rest (process_record i record d))"

text \<open>
  \<open>parse_fastq\<close> with the temporary directory as explicit state: the list of the files it
  holds. \<open>NamedTemporaryFile(delete=False)\<close> adds the file \<open>tmp_path\<close>. When the loop raises,
  the exception leaves the function through the \<open>with\<close> block and the statement
  \<open>os.unlink(tmp_path)\<close> after the block is not reached; otherwise it removes the file.
\<close>

definition parse_fastq ::
  "string \<Rightarrow> (py_error + seq_record) list \<Rightarrow> string list \<Rightarrow> (py_error + fastq_data) \<times> string list" where
  "parse_fastq tmp_path stream tmp_files =
     (let created = tmp_path # tmp_files
      in case read_loop 0 stream empty_data of
           Inl e \<Rightarrow> (Inl e, created)
         | Inr d \<Rightarrow> (Inr d, removeAll tmp_path created))"

subsection \<open>Derived analytics\<close>

definition default_adapters :: "string list" where
  "default_adapters = [''AGATCGGAAGAG'', ''CTGTCTCTTATA'']"

text \<open>\<open>adapter in seq\<close>: the adapter occurs as a contiguous substring.\<close>

fun contains :: "string \<Rightarrow> string \<Rightarrow> bool" where
  "contains adapter [] = (adapter = [])"
| "contains adapter (c # s) = (take (length adapter) (c # s) = adapter \<or> contains adapter s)"

text \<open>
  \<open>adapter_counts\<close> is built by the dictionary comprehension, incremented for every
  sequence and adapter, and then every value is replaced by its percentage. Each
  incremented key is one of \<open>adapters\<close> and therefore present.
\<close>

definition init_counts :: "string list \<Rightarrow> (string \<times> nat) list" where
  "init_counts adapters = foldl (\<lambda>d adapter. AList.update adapter 0 d) [] adapters"

fun count_in_seq :: "string \<Rightarrow> string list \<Rightarrow> (string \<times> nat) list \<Rightarrow> (string \<times> nat) list" where
  "count_in_seq s [] adapter_counts = adapter_counts"
| "count_in_seq s (adapter # rest) adapter_counts =
     count_in_seq s rest
       (if contains adapter s then AList.map_entry adapter Suc adapter_counts else adapter_counts)"

fun count_all :: "string list \<Rightarrow> string list \<Rightarrow> (string \<times> nat) list \<Rightarrow> (string \<times> nat) list" where
  "count_all [] adapters adapter_counts = adapter_counts"
| "count_all (s # rest) adapters adapter_counts =
     count_all rest adapters (count_in_seq s adapters adapter_counts)"

fun to_percentages :: "nat \<Rightarrow> (string \<times> nat) list \<Rightarrow> py_error + (string \<times> rat) list" where
  "to_percentages n [] = Inr []"
| "to_percentages n ((adapter, k) # rest) =
     (case percentage k n of
        Inl e \<Rightarrow> Inl e
      | Inr p \<Rightarrow> (case to_percentages n rest of
                    Inl e \<Rightarrow> Inl e
                  | Inr ps \<Rightarrow> Inr ((adapter, p) # ps)))"

definition detect_adapters :: "string list \<Rightarrow> string list \<Rightarrow> py_error + (string \<times> rat) list" where
  "detect_adapters sequences adapters =
     to_percentages (length sequences) (count_all sequences adapters (init_counts adapters))"

text \<open>\<open>Counter(sequences)\<close>: each element adds one to its entry, a new entry starting at one.\<close>

definition counter_add :: "(string \<times> nat) list \<Rightarrow> string \<Rightarrow> (string \<times> nat) list" where
  "counter_add d x = AList.update x (case map_of d x of None \<Rightarrow> 1 | Some k \<Rightarrow> k + 1) d"

definition Counter :: "string list \<Rightarrow> (string \<times> nat) list" where
  "Counter xs = foldl counter_add [] xs"

definition find_duplicates :: "string list \<Rightarrow> py_error + rat" where
  "find_duplicates sequences =
     (let sequence_counter = Counter sequences;
          duplicates = filter (\<lambda>(s, count). count > 1) sequence_counter
      in percentage (length duplicates) (length sequences))"

text \<open>
  The effect of the loop on a run of well-formed records, the first of which has index \<open>i\<close>:
  the records are processed in order.
\<close>

fun process_all :: "nat \<Rightarrow> seq_record list \<Rightarrow> fastq_data \<Rightarrow> fastq_data" where
  "process_all i [] d = d"
| "process_all i (record # rest) d = process_all (i + 1) rest (process_record i record d)"

section \<open>Properties of the arithmetic\<close>

lemma pow2_powi: "pow2 k = 2 powi k"
  by (simp add: pow2_def power_int_def power_inverse [symmetric] inverse_eq_divide power_one_over)

lemma pow2_pos: "0 < pow2 k"
  by (simp add: pow2_powi)

lemma pow2_add: "pow2 (a + b) = pow2 a * pow2 b"
  by (simp add: pow2_powi power_int_add)

lemma pow2_less_iff: "pow2 a < pow2 b \<longleftrightarrow> a < b"
proof
  assume l: "pow2 a < pow2 b"
  show "a < b"
  proof (rule ccontr)
    assume "\<not> a < b"
    then have "b \<le> a" by simp
    then have "pow2 b \<le> pow2 a"
      unfolding pow2_powi by (rule power_int_increasing) simp
    with l show False by simp
  qed
next
  assume "a < b"
  then show "pow2 a < pow2 b"
    unfolding pow2_powi by (rule power_int_strict_increasing) simp
qed

lemma pow2_nonneg_int: "0 \<le> k \<Longrightarrow> pow2 k = of_int (2 ^ nat k)"
  by (simp add: pow2_def)

lemma ilog2_nonneg: "0 \<le> ilog2 n"
  by (induction n rule: ilog2.induct) (subst ilog2.simps, simp)

lemma ilog2_bounds: "1 \<le> n \<Longrightarrow> 2 ^ nat (ilog2 n) \<le> n \<and> n < 2 * 2 ^ nat (ilog2 n)"
proof (induction n rule: ilog2.induct)
  case (1 n)
  show ?case
  proof (cases "n < 2")
    case True
    with "1.prems" have "n = 1" by simp
    then show ?thesis by (subst ilog2.simps, subst ilog2.simps) simp
  next
    case False
    then have h: "1 \<le> n div 2" by simp
    from "1.IH" [OF False h]
    have lo: "2 ^ nat (ilog2 (n div 2)) \<le> n div 2"
      and hi: "n div 2 < 2 * 2 ^ nat (ilog2 (n div 2))" by simp_all
    have e: "nat (ilog2 n) = Suc (nat (ilog2 (n div 2)))"
      using False ilog2_nonneg [of "n div 2"] by (subst ilog2.simps) (simp add: nat_add_distrib)
    from lo have "2 * 2 ^ nat (ilog2 (n div 2)) \<le> n" by linarith
    moreover from hi have "n < 2 * (2 * 2 ^ nat (ilog2 (n div 2)))" by linarith
    ultimately show ?thesis by (simp add: e)
  qed
qed

lemma rhe_le: "q \<le> of_int n \<Longrightarrow> rhe q \<le> n"
proof -
  assume a: "q \<le> of_int n"
  then have f: "\<lfloor>q\<rfloor> \<le> n" by (simp add: floor_le_iff)
  show ?thesis
  proof (cases "q = of_int \<lfloor>q\<rfloor>")
    case True
    then have "rhe q = \<lfloor>q\<rfloor>" by (simp add: rhe_def Let_def)
    with f show ?thesis by simp
  next
    case False
    with a have "q < of_int n" "of_int \<lfloor>q\<rfloor> < q"
      by (metis floor_of_int less_eq_rat_def, metis of_int_floor_le less_eq_rat_def)
    then have "\<lfloor>q\<rfloor> < n" by (simp add: floor_less_iff)
    moreover have "rhe q \<le> \<lfloor>q\<rfloor> + 1" by (simp add: rhe_def Let_def)
    ultimately show ?thesis by linarith
  qed
qed

lemma rhe_nonneg: "0 \<le> q \<Longrightarrow> 0 \<le> rhe q"
  by (simp add: rhe_def Let_def)

lemma fl_nonneg: "0 \<le> q \<Longrightarrow> 0 \<le> fl q"
  by (simp add: fl_def Let_def rhe_nonneg pow2_pos less_imp_le)

text \<open>
  \<open>expo\<close> is the binary exponent, \<open>rhe\<close> is within one half of its argument, and so \<open>fl\<close>
  is within half a unit in the last place of its argument.
\<close>

lemma expo_bounds:
  assumes "0 < q"
  shows "pow2 (expo q) \<le> q \<and> q < pow2 (expo q + 1)"
proof -
  obtain a b where ab: "quotient_of q = (a, b)" by (cases "quotient_of q")
  then have b: "0 < b" and q: "q = of_int a / of_int b"
    by (simp_all add: quotient_of_denom_pos quotient_of_div)
  from q b assms have a: "0 < a" by (simp add: zero_less_divide_iff)
  define k where "k = ilog2 a - ilog2 b"
  have ex: "expo q = (if pow2 k \<le> q then k else k - 1)"
    by (simp add: expo_def ab k_def Let_def)
  from ilog2_bounds [of a] a have la: "(2::int) ^ nat (ilog2 a) \<le> a"
    and ua: "a < 2 * 2 ^ nat (ilog2 a)" by simp_all
  from ilog2_bounds [of b] b have lb: "(2::int) ^ nat (ilog2 b) \<le> b"
    and ub: "b < 2 * 2 ^ nat (ilog2 b)" by simp_all
  have pa: "pow2 (ilog2 a) = of_int (2 ^ nat (ilog2 a))"
    and pb: "pow2 (ilog2 b) = of_int (2 ^ nat (ilog2 b))"
    using ilog2_nonneg [of a] ilog2_nonneg [of b] by (simp_all add: pow2_nonneg_int)
  have two: "pow2 1 = 2" by (simp add: pow2_def)
  have lo: "pow2 (k - 1) < q"
  proof -
    have "pow2 (k - 1) * of_int b < pow2 (k - 1) * (pow2 (ilog2 b) * pow2 1)"
      using ub pow2_pos [of "k - 1"] unfolding pb two
      by (simp only: mult_less_cancel_left_pos)
    also have "\<dots> = pow2 (ilog2 a)"
      by (simp add: pow2_add [symmetric] k_def)
    also have "\<dots> \<le> of_int a"
      unfolding pa using la by (simp only: of_int_le_iff)
    finally show ?thesis using b by (simp add: q pos_less_divide_eq)
  qed
  have hi: "q < pow2 (k + 1)"
  proof -
    have "of_int a < pow2 (ilog2 a) * pow2 1"
      unfolding pa two using ua by (metis mult.commute of_int_less_iff of_int_mult of_int_numeral)
    also have "\<dots> = pow2 (k + 1) * pow2 (ilog2 b)"
      by (simp add: pow2_add [symmetric] k_def)
    also have "\<dots> \<le> pow2 (k + 1) * of_int b"
      unfolding pb using lb pow2_pos [of "k + 1"]
      by (simp only: mult_le_cancel_left_pos of_int_le_iff)
    finally show ?thesis using b by (simp add: q pos_divide_less_eq)
  qed
  show ?thesis
  proof (cases "pow2 k \<le> q")
    case True
    with hi show ?thesis by (simp add: ex)
  next
    case False
    with lo show ?thesis by (simp add: ex)
  qed
qed


lemma rhe_nearest: "\<bar>of_int (rhe q) - q\<bar> \<le> 1 / 2"
proof -
  define r where "r = q - of_int \<lfloor>q\<rfloor>"
  have r: "0 \<le> r" "r < 1" unfolding r_def by linarith+
  have q: "q = of_int \<lfloor>q\<rfloor> + r" by (simp add: r_def)
  consider "r < 1 / 2" | "1 / 2 < r" | "r = 1 / 2" by linarith
  then show ?thesis
  proof cases
    case 1
    then have "rhe q = \<lfloor>q\<rfloor>" by (simp add: rhe_def Let_def r_def)
    then have "of_int (rhe q) - q = - r" by (simp add: r_def)
    with r 1 show ?thesis by simp
  next
    case 2
    then have "rhe q = \<lfloor>q\<rfloor> + 1" by (simp add: rhe_def Let_def r_def)
    then have "of_int (rhe q) - q = 1 - r" by (simp add: r_def)
    with r 2 show ?thesis by simp
  next
    case 3
    then have "rhe q = \<lfloor>q\<rfloor> \<or> rhe q = \<lfloor>q\<rfloor> + 1" by (simp add: rhe_def Let_def r_def)
    then have "of_int (rhe q) - q = - r \<or> of_int (rhe q) - q = 1 - r" by (auto simp: r_def)
    with 3 show ?thesis by auto
  qed
qed

lemma fl_nearest:
  "q \<noteq> 0 \<Longrightarrow> \<bar>fl q - q\<bar> \<le> pow2 (max (expo \<bar>q\<bar>) (- 1022) - 52) / 2"
proof -
  assume q: "q \<noteq> 0"
  define u where "u = pow2 (max (expo \<bar>q\<bar>) (- 1022) - 52)"
  have u: "0 < u" by (simp add: u_def pow2_pos)
  have "fl q - q = (of_int (rhe (q / u)) - q / u) * u"
    using q u by (simp add: fl_def Let_def u_def [symmetric] algebra_simps)
  then have "\<bar>fl q - q\<bar> = \<bar>of_int (rhe (q / u)) - q / u\<bar> * u"
    using u by (simp add: abs_mult)
  also have "\<dots> \<le> 1 / 2 * u"
    using rhe_nearest [of "q / u"] u by (simp only: mult_le_cancel_right_pos)
  finally show ?thesis by (simp add: u_def)
qed

lemma expo_le:
  assumes "0 < q" and "q < pow2 (m + 1)"
  shows "expo q \<le> m"
proof -
  from expo_bounds [OF assms(1)] assms(2) have "pow2 (expo q) < pow2 (m + 1)" by simp
  then show ?thesis by (simp add: pow2_less_iff)
qed

lemma fl_le:
  assumes q: "0 < q" "q \<le> of_int c * pow2 j" and e: "q < pow2 53" and j: "0 \<le> j"
  shows "fl q \<le> of_int c * pow2 j"
proof -
  define J where "J = max (expo \<bar>q\<bar>) (- 1022) - 52"
  define u where "u = pow2 J"
  from q(1) e have "expo q \<le> 52" by (intro expo_le) simp_all
  with q(1) j have J: "J \<le> j" by (simp add: J_def)
  have u: "0 < u" by (simp add: u_def pow2_pos)
  have f: "fl q = of_int (rhe (q / u)) * u"
    using q(1) by (simp add: fl_def Let_def u_def J_def)
  have "pow2 j = pow2 (j - J) * u"
    by (simp add: u_def pow2_add [symmetric])
  also have "pow2 (j - J) = of_int (2 ^ nat (j - J))"
    using J by (intro pow2_nonneg_int) simp
  finally have pj: "of_int c * pow2 j = of_int (c * 2 ^ nat (j - J)) * u"
    by simp
  from q(2) u have "q / u \<le> of_int (c * 2 ^ nat (j - J))"
    by (simp only: pj pos_divide_le_eq)
  then have "rhe (q / u) \<le> c * 2 ^ nat (j - J)" by (rule rhe_le)
  then have "(of_int (rhe (q / u)) :: rat) \<le> of_int (c * 2 ^ nat (j - J))"
    by (simp only: of_int_le_iff)
  with u have "of_int (rhe (q / u)) * u \<le> of_int (c * 2 ^ nat (j - J)) * u"
    by (simp only: mult_le_cancel_right_pos)
  then show ?thesis by (simp only: f pj)
qed

lemma fl_le_1: "0 \<le> q \<Longrightarrow> q \<le> 1 \<Longrightarrow> fl q \<le> 1"
proof (cases "q = 0")
  case True
  then show ?thesis by (simp add: fl_def)
next
  case False
  assume "0 \<le> q" "q \<le> 1"
  with False have "0 < q" "q \<le> of_int 1 * pow2 0" "q < pow2 53"
    by (simp_all add: pow2_def)
  then have "fl q \<le> of_int 1 * pow2 0" by (rule fl_le) simp
  then show ?thesis by (simp add: pow2_def)
qed

lemma fl_le_100: "0 \<le> q \<Longrightarrow> q \<le> 100 \<Longrightarrow> fl q \<le> 100"
proof (cases "q = 0")
  case True
  then show ?thesis by (simp add: fl_def)
next
  case False
  assume "0 \<le> q" "q \<le> 100"
  with False have "0 < q" "q \<le> of_int 100 * pow2 0" "q < pow2 53"
    by (simp_all add: pow2_def)
  then have "fl q \<le> of_int 100 * pow2 0" by (rule fl_le) simp
  then show ?thesis by (simp add: pow2_def)
qed

lemma percent_bounds:
  assumes "a \<le> b" "0 < b"
  shows "0 \<le> fl (fl (of_nat a / of_nat b) * 100) \<and> fl (fl (of_nat a / of_nat b) * 100) \<le> 100"
proof -
  let ?q = "of_nat a / of_nat b :: rat"
  from assms have q: "0 \<le> ?q" "?q \<le> 1" by (simp_all add: divide_le_eq_1)
  then have "0 \<le> fl ?q" "fl ?q \<le> 1" by (simp_all add: fl_nonneg fl_le_1)
  then have "0 \<le> fl ?q * 100" "fl ?q * 100 \<le> 100" by simp_all
  then show ?thesis by (simp add: fl_nonneg fl_le_100)
qed

lemma py_round2_bounds:
  assumes "0 \<le> x" "x \<le> 100"
  shows "0 \<le> py_round2 x \<and> py_round2 x \<le> 100"
proof -
  from assms have "x * 100 \<le> of_int 10000" by simp
  then have "rhe (x * 100) \<le> 10000" by (rule rhe_le)
  moreover from assms have "0 \<le> rhe (x * 100)" by (simp add: rhe_nonneg)
  ultimately have "0 \<le> (of_int (rhe (x * 100)) / 100 :: rat)"
    "(of_int (rhe (x * 100)) / 100 :: rat) \<le> 100" by simp_all
  then show ?thesis unfolding py_round2_def by (simp add: fl_nonneg fl_le_100)
qed

section \<open>Properties of the GC-content calculator\<close>

lemma upper_char_base: "is_base (upper_char c) \<longleftrightarrow> c \<in> set ''ATCGatcg''"
  by (simp add: upper_char_def is_base_def)

lemma upper_char_id: "is_base c \<Longrightarrow> upper_char c = c"
proof -
  assume "is_base c"
  then consider "c = CHR ''A''" | "c = CHR ''T''" | "c = CHR ''C''" | "c = CHR ''G''"
    by (auto simp: is_base_def)
  then show ?thesis
    by cases (simp_all add: upper_char_def)
qed

lemma base_not_space: "is_base c \<Longrightarrow> \<not> isspace c"
  by (auto simp: is_base_def isspace_def)

lemma filter_dropWhile_disjoint:
  "(\<And>x. Q x \<Longrightarrow> \<not> P x) \<Longrightarrow> filter P (dropWhile Q xs) = filter P xs"
  by (induction xs) auto

lemma filter_strip: "filter is_base (strip s) = filter is_base s"
proof -
  have d: "filter is_base (dropWhile isspace xs) = filter is_base xs" for xs
    by (rule filter_dropWhile_disjoint) (auto dest: base_not_space)
  have "filter is_base (strip s) = rev (filter is_base (dropWhile isspace (rev (dropWhile isspace s))))"
    by (simp add: strip_def rev_filter)
  also have "\<dots> = rev (filter is_base (rev (dropWhile isspace s)))" by (simp only: d)
  also have "\<dots> = filter is_base (dropWhile isspace s)" by (simp add: rev_filter)
  finally show ?thesis by (simp only: d)
qed

lemma filtered_alt: "filtered s = filter is_base (upper s)"
  by (simp add: filtered_def re_sub_non_atcg_def filter_strip)

lemma upper_bases: "\<forall>c\<in>set xs. is_base c \<Longrightarrow> upper xs = xs"
  by (simp add: upper_def map_idI upper_char_id)

lemma filtered_idem: "filtered (filtered s) = filtered s"
proof -
  have "upper (filter is_base (upper s)) = filter is_base (upper s)"
    by (rule upper_bases) simp
  then show ?thesis by (simp add: filtered_alt)
qed

lemma count_bases_sum:
  "\<forall>c\<in>set xs. is_base c \<Longrightarrow>
   count_list xs CHR ''A'' + count_list xs CHR ''C'' + count_list xs CHR ''G''
     + count_list xs CHR ''T'' = length xs"
  by (induction xs) (auto simp: is_base_def)

lemma filtered_bases: "\<forall>c\<in>set (filtered s). is_base c"
  by (simp add: filtered_alt)

lemma count_list_replicate: "count_list (replicate n x) y = (if x = y then n else 0)"
  by (induction n) auto

lemma calcular_gc_empty: "filtered s = [] \<Longrightarrow> calcular_gc s = (0, 0, 0, 0, 0)"
  by (simp add: calcular_gc_def)

lemma calcular_gc_nonempty:
  "filtered s \<noteq> [] \<Longrightarrow>
   calcular_gc s =
     (py_round2 (fl (fl (of_nat (count_list (filtered s) CHR ''G'' + count_list (filtered s) CHR ''C'')
                          / of_nat (length (filtered s))) * 100)),
      count_list (filtered s) CHR ''G'', count_list (filtered s) CHR ''C'',
      count_list (filtered s) CHR ''A'', count_list (filtered s) CHR ''T'')"
  by (simp add: calcular_gc_def Let_def)

lemma gc_le_length:
  "count_list (filtered s) CHR ''G'' + count_list (filtered s) CHR ''C'' \<le> length (filtered s)"
  using count_bases_sum [OF filtered_bases, of s] by linarith

lemma calcular_gc_range: "0 \<le> fst (calcular_gc s) \<and> fst (calcular_gc s) \<le> 100"
proof (cases "filtered s = []")
  case True
  then show ?thesis by (simp add: calcular_gc_empty)
next
  case False
  then have "0 < length (filtered s)" by simp
  from percent_bounds [OF gc_le_length this] show ?thesis
    by (simp add: calcular_gc_nonempty [OF False] py_round2_bounds)
qed


lemma filtered_gcAT: "filtered ''gcAT'' = ''GCAT''"
  by (simp add: filtered_alt upper_def upper_char_def is_base_def)

lemma filtered_punct: "filtered ''n-x 5'' = []"
  by (simp add: filtered_alt upper_def upper_char_def is_base_def)

lemma fl_half: "py_round2 (fl (fl (1 / 2) * 100)) = 50"
  by code_simp

lemma filtered_example:
  "filtered (replicate 23 CHR ''G'' @ replicate 137 CHR ''A'')
     = replicate 23 CHR ''G'' @ replicate 137 CHR ''A''"
  by (simp add: filtered_alt upper_def upper_char_id is_base_def)

lemma fl_example1: "py_round2 (fl (fl (23 / 160) * 100)) = fl (1437 / 100)"
  by code_simp
lemma fl_example2: "py_round2 (fl (2300 / 160)) = fl (1438 / 100)"
  by code_simp
lemma fl_example3: "of_int (rhe (100 * (2300 / 160))) / 100 = (1438 / 100 :: rat)"
  by code_simp
lemma fl_example4: "fl (1437 / 100) \<noteq> fl (1438 / 100) \<and> fl (1437 / 100) \<noteq> 1438 / 100"
  by code_simp


text \<open>
  C6: for every input string the four base counts returned by \<open>calcular_gc\<close> add up to the
  length of the filtered string, which is the input after upper-casing and removing every
  character other than A, T, C and G.
\<close>

theorem calcular_gc_counts_sum:
  "(case calcular_gc s of (porcentaje, count_g, count_c, count_a, count_t) \<Rightarrow>
      count_a + count_c + count_g + count_t) = length (filtered s)
   \<and> filtered s = filter is_base (upper s)"
proof (cases "filtered s = []")
  case True
  then show ?thesis by (simp add: calcular_gc_empty filtered_alt [symmetric])
next
  case False
  with count_bases_sum [OF filtered_bases, of s] show ?thesis
    by (simp add: calcular_gc_nonempty filtered_alt [symmetric])
qed


text \<open>
  C7: running \<open>calcular_gc\<close> on the filtered string of a previous run gives the same
  percentage and the same four counts as the first run.
\<close>

theorem calcular_gc_idempotent:
  "calcular_gc (filtered s) = calcular_gc s"
  by (simp add: calcular_gc_def filtered_idem)


text \<open>
  C5, as the code has it: the filtered string is the upper-cased input without the
  characters other than A, T, C and G; when it is empty the result is percentage 0 and four
  zero counts, with no division; otherwise the percentage is \<open>round((G+C)/total * 100, 2)\<close>
  with the quotient, the product and the rounding each evaluated in double precision in
  this order; in every case the percentage lies between 0 and 100.
\<close>

theorem calcular_gc_percentage:
  "filtered s = filter is_base (upper s)
   \<and> (filtered s = [] \<longrightarrow> calcular_gc s = (0, 0, 0, 0, 0))
   \<and> (filtered s \<noteq> [] \<longrightarrow>
        fst (calcular_gc s) =
          py_round2 (fl (fl (of_nat (count_list (filtered s) CHR ''G'' + count_list (filtered s) CHR ''C'')
                             / of_nat (length (filtered s))) * 100)))
   \<and> 0 \<le> fst (calcular_gc s) \<and> fst (calcular_gc s) \<le> 100"
  using calcular_gc_range [of s]
  by (simp add: filtered_alt [symmetric] calcular_gc_empty calcular_gc_nonempty)

theorem calcular_gc_percentage_witness:
  "filtered ''gcAT'' \<noteq> [] \<and> fst (calcular_gc ''gcAT'') = 50
   \<and> filtered ''n-x 5'' = [] \<and> calcular_gc ''n-x 5'' = (0, 0, 0, 0, 0)"
  using calcular_gc_percentage [of "''gcAT''"] calcular_gc_percentage [of "''n-x 5''"]
  by (simp add: filtered_alt [symmetric] filtered_gcAT filtered_punct fl_half)

text \<open>
  C5 as stated fails: for 23 G and 137 A the code returns the double nearest 14.37, but
  \<open>round(100 * (G+C)/total, 2)\<close> is 14.38, both as a Python expression and over the
  rationals, because \<open>(23/160)*100\<close> is rounded to a double just below 14.375.
\<close>

theorem calcular_gc_formula_counterexample:
  "fst (calcular_gc (replicate 23 CHR ''G'' @ replicate 137 CHR ''A'')) = fl (1437 / 100)
   \<and> count_list (filtered (replicate 23 CHR ''G'' @ replicate 137 CHR ''A'')) CHR ''G''
       + count_list (filtered (replicate 23 CHR ''G'' @ replicate 137 CHR ''A'')) CHR ''C'' = 23
   \<and> length (filtered (replicate 23 CHR ''G'' @ replicate 137 CHR ''A'')) = 160
   \<and> spec_gc_float 23 160 = fl (1438 / 100)
   \<and> spec_gc_exact 23 160 = 1438 / 100
   \<and> fl (1437 / 100) \<noteq> fl (1438 / 100)
   \<and> fl (1437 / 100) \<noteq> 1438 / 100"
proof -
  have ne: "filtered (replicate 23 CHR ''G'' @ replicate 137 CHR ''A'') \<noteq> []"
    by (simp add: filtered_example)
  have "fst (calcular_gc (replicate 23 CHR ''G'' @ replicate 137 CHR ''A'')) = py_round2 (fl (fl (23 / 160) * 100))"
    by (simp add: calcular_gc_nonempty [OF ne] filtered_example count_list_replicate)
  moreover have "spec_gc_float 23 160 = py_round2 (fl (2300 / 160))"
    by (simp add: spec_gc_float_def)
  moreover have "spec_gc_exact 23 160 = of_int (rhe (100 * (2300 / 160))) / 100"
    by (simp add: spec_gc_exact_def)
  ultimately show ?thesis
    using fl_example4
    by (simp only: fl_example1 fl_example2 fl_example3 filtered_example count_list_append count_list_replicate length_append length_replicate) simp
qed

section \<open>Properties of the multi-record parser\<close>

lemma loop_body:
  "\<forall>l\<in>set body. \<not> is_header l \<Longrightarrow>
   parse_fasta_loop secuencias current_id current_seq (body @ rest) =
   parse_fasta_loop secuencias current_id (current_seq @ map strip body) rest"
  by (induction body arbitrary: current_seq) simp_all

lemma loop_body_end:
  "\<forall>l\<in>set body. \<not> is_header l \<Longrightarrow>
   parse_fasta_loop secuencias current_id current_seq body =
   store secuencias current_id (current_seq @ map strip body)"
  using loop_body [of body secuencias current_id current_seq "[]"] by simp

lemma loop_header:
  "is_header h \<Longrightarrow>
   parse_fasta_loop secuencias current_id current_seq (h # rest) =
   parse_fasta_loop (store secuencias current_id current_seq) (header_id h) [] rest"
  by simp

lemma two_records:
  assumes "\<forall>l\<in>set pre. \<not> is_header l" "\<forall>l\<in>set body1. \<not> is_header l" "\<forall>l\<in>set body2. \<not> is_header l"
    and "is_header h1" "is_header h2"
    and "header_id h1 \<noteq> []" "header_id h2 \<noteq> []" "header_id h1 \<noteq> header_id h2"
  shows "parse_fasta_loop [] [] [] (pre @ h1 # body1 @ h2 # body2) =
         [(header_id h1, concat (map strip body1)), (header_id h2, concat (map strip body2))]"
proof -
  have "parse_fasta_loop [] [] [] (pre @ h1 # body1 @ h2 # body2)
        = parse_fasta_loop [] [] ([] @ map strip pre) (h1 # body1 @ h2 # body2)"
    using assms(1) by (rule loop_body)
  also have "\<dots> = parse_fasta_loop [] (header_id h1) [] (body1 @ h2 # body2)"
    using assms(4) by (simp add: store_def)
  also have "\<dots> = parse_fasta_loop [] (header_id h1) ([] @ map strip body1) (h2 # body2)"
    using assms(2) by (rule loop_body)
  also have "\<dots> = parse_fasta_loop [(header_id h1, concat (map strip body1))] (header_id h2) [] body2"
    using assms(5,6) by (simp add: store_def)
  also have "\<dots> = store [(header_id h1, concat (map strip body1))] (header_id h2) ([] @ map strip body2)"
    using assms(3) by (rule loop_body_end)
  also have "\<dots> = [(header_id h1, concat (map strip body1)), (header_id h2, concat (map strip body2))]"
    using assms(7,8) by (simp add: store_def)
  finally show ?thesis .
qed

lemma no_headers:
  assumes "\<forall>l\<in>set lineas. \<not> is_header l"
  shows "parse_fasta_loop [] [] [] lineas = []"
  using loop_body_end [OF assms, of "[]" "[]" "[]"] by (simp add: store_def)

lemma store_distinct:
  "distinct (map fst secuencias) \<Longrightarrow> distinct (map fst (store secuencias current_id current_seq))"
  by (simp add: store_def distinct_update)

lemma loop_distinct:
  "distinct (map fst secuencias) \<Longrightarrow>
   distinct (map fst (parse_fasta_loop secuencias current_id current_seq lineas))"
  by (induction lineas arbitrary: secuencias current_id current_seq) (simp_all add: store_distinct)

lemma store_other:
  "current_id \<noteq> ident \<Longrightarrow> map_of (store secuencias current_id current_seq) ident = map_of secuencias ident"
  by (simp add: store_def update_conv')

lemma store_same:
  "ident \<noteq> [] \<Longrightarrow> map_of (store secuencias ident current_seq) ident = Some (concat current_seq)"
  by (simp add: store_def update_conv')

lemma loop_other:
  "current_id \<noteq> ident \<Longrightarrow> \<forall>l\<in>set lineas. is_header l \<longrightarrow> header_id l \<noteq> ident \<Longrightarrow>
   map_of (parse_fasta_loop secuencias current_id current_seq lineas) ident = map_of secuencias ident"
  by (induction lineas arbitrary: secuencias current_id current_seq) (simp_all add: store_other)

lemma loop_last:
  "ident \<noteq> [] \<Longrightarrow> \<forall>l\<in>set lineas. is_header l \<longrightarrow> header_id l \<noteq> ident \<Longrightarrow>
   map_of (parse_fasta_loop secuencias ident current_seq lineas) ident =
   Some (concat (current_seq @ map strip (takeWhile (\<lambda>l. \<not> is_header l) lineas)))"
proof (induction lineas arbitrary: secuencias current_seq)
  case Nil
  then show ?case by (simp add: store_same)
next
  case (Cons l lineas)
  show ?case
  proof (cases "is_header l")
    case True
    with Cons.prems have "header_id l \<noteq> ident"
      and "\<forall>l\<in>set lineas. is_header l \<longrightarrow> header_id l \<noteq> ident" by simp_all
    then have "map_of (parse_fasta_loop (store secuencias ident current_seq) (header_id l) [] lineas) ident
               = map_of (store secuencias ident current_seq) ident"
      by (rule loop_other)
    with True Cons.prems(1) show ?thesis by (simp add: store_same)
  next
    case False
    with Cons.IH [of secuencias "current_seq @ [strip l]"] Cons.prems show ?thesis by simp
  qed
qed

lemma loop_prefix:
  "is_header h \<Longrightarrow>
   \<exists>s. parse_fasta_loop secuencias current_id current_seq (pre @ h # rest) =
       parse_fasta_loop s (header_id h) [] rest"
proof (induction pre arbitrary: secuencias current_id current_seq)
  case Nil
  then show ?case by auto
next
  case (Cons l pre)
  then show ?case by (cases "is_header l") simp_all
qed

lemma single_entry:
  "distinct (map fst al) \<Longrightarrow> map_of al k = Some v \<Longrightarrow> filter (\<lambda>(k', v'). k' = k) al = [(k, v)]"
proof (induction al)
  case Nil
  then show ?case by simp
next
  case (Cons p al)
  obtain k' v' where p: "p = (k', v')" by (cases p)
  show ?case
  proof (cases "k' = k")
    case True
    with Cons.prems p have "v' = v" and "k \<notin> fst ` set al" by auto
    then have "filter (\<lambda>(k', v'). k' = k) al = []"
      by (auto simp: filter_empty_conv image_iff)
    with True p \<open>v' = v\<close> show ?thesis by simp
  next
    case False
    with Cons p show ?thesis by simp
  qed
qed

lemma update_length: "length (AList.update k v al) \<le> Suc (length al)"
  by (induction al) auto

lemma store_length:
  "length (store secuencias current_id current_seq) \<le> length secuencias + (if current_id \<noteq> [] then 1 else 0)"
  using update_length [of current_id "concat current_seq" secuencias] by (simp add: store_def)

lemma loop_length:
  "length (parse_fasta_loop secuencias current_id current_seq lineas)
   \<le> length secuencias + (if current_id \<noteq> [] then 1 else 0) + length (filter is_header lineas)"
proof (induction lineas arbitrary: secuencias current_id current_seq)
  case Nil
  then show ?case using store_length [of secuencias current_id current_seq] by simp
next
  case (Cons l lineas)
  show ?case
  proof (cases "is_header l")
    case True
    have "length (parse_fasta_loop (store secuencias current_id current_seq) (header_id l) [] lineas)
          \<le> length (store secuencias current_id current_seq) + (if header_id l \<noteq> [] then 1 else 0)
             + length (filter is_header lineas)" by (rule Cons.IH)
    also have "\<dots> \<le> length secuencias + (if current_id \<noteq> [] then 1 else 0) + 1 + length (filter is_header lineas)"
      using store_length [of secuencias current_id current_seq] by simp
    finally show ?thesis using True by simp
  next
    case False
    with Cons.IH [of secuencias current_id "current_seq @ [strip l]"] show ?thesis by simp
  qed
qed

lemma store_empty_key:
  "map_of (store secuencias current_id current_seq) [] = map_of secuencias []"
  by (simp add: store_def update_conv')

lemma loop_empty_key:
  "map_of secuencias [] = None \<Longrightarrow>
   map_of (parse_fasta_loop secuencias current_id current_seq lineas) [] = None"
  by (induction lineas arbitrary: secuencias current_id current_seq) (simp_all add: store_empty_key)

lemma splitlines_ex1:
  "splitlines ''>s1 x\<newline>AC \<newline> GT\<newline>>s2\<newline>TT'' = [''>s1 x'', ''AC '', '' GT'', ''>s2'', ''TT'']"
  by (simp add: splitlines_def is_linebreak_def)

lemma splitlines_ex2:
  "splitlines ''ACGT\<newline>GG'' = [''ACGT'', ''GG'']"
  by (simp add: splitlines_def is_linebreak_def)

lemma strip_ex: "strip ''s1 x'' = ''s1 x''" "strip ''s2'' = ''s2''" "strip ''AC '' = ''AC''" "strip '' GT'' = ''GT''" "strip ''TT'' = ''TT''"
  by (simp_all add: strip_def isspace_def)

lemma splitlines_ex3: "splitlines ''>\<newline>AC\<newline>>b\<newline>GG'' = [''>'', ''AC'', ''>b'', ''GG'']"
  by (simp add: splitlines_def is_linebreak_def)

lemma splitlines_ex4:
  "splitlines ''>a\<newline>AC\<newline>>b\<newline>T\<newline>>a\<newline>GG\<newline>G'' = [''>a'', ''AC'', ''>b'', ''T'', ''>a'', ''GG'', ''G'']"
  by (simp add: splitlines_def is_linebreak_def)


text \<open>
  C8, as the code has it: when the lines of the text hold exactly two header lines, whose
  identifiers (the header without its marker, stripped) are non-empty and distinct,
  \<open>parse_fasta\<close> returns exactly two entries, in order, and the sequence of each is the
  concatenation of the lines between its header and the next, each stripped of the white
  space at both of its ends; when no line is a header it returns no entry.
\<close>

theorem parse_fasta_two_records:
  "(splitlines contenido = pre @ h1 # body1 @ h2 # body2
      \<and> (\<forall>l\<in>set (pre @ body1 @ body2). \<not> is_header l)
      \<and> is_header h1 \<and> is_header h2
      \<and> header_id h1 \<noteq> [] \<and> header_id h2 \<noteq> [] \<and> header_id h1 \<noteq> header_id h2
    \<longrightarrow> parse_fasta contenido =
          [(header_id h1, concat (map strip body1)), (header_id h2, concat (map strip body2))])
   \<and> ((\<forall>l\<in>set (splitlines contenido). \<not> is_header l) \<longrightarrow> parse_fasta contenido = [])"
  by (auto simp: parse_fasta_def two_records no_headers)


theorem parse_fasta_two_records_witness:
  "parse_fasta ''>s1 x\<newline>AC \<newline> GT\<newline>>s2\<newline>TT'' = [(''s1 x'', ''ACGT''), (''s2'', ''TT'')]
   \<and> parse_fasta ''ACGT\<newline>GG'' = []"
  using parse_fasta_two_records [of "''>s1 x\<newline>AC \<newline> GT\<newline>>s2\<newline>TT''" "[]" "''>s1 x''" "[''AC '', '' GT'']" "''>s2''" "[''TT'']"]
    parse_fasta_two_records [of "''ACGT\<newline>GG''"]
  by (simp add: splitlines_ex1 splitlines_ex2 is_header_def header_id_def strip_ex)


text \<open>
  C8 as stated fails: the guard \<open>if current_id:\<close> drops a record whose header is the marker
  alone. The text below has exactly two header lines, with the distinct identifiers \<open>''\<close>
  and \<open>b\<close>, and its last header is not the marker alone; one entry is returned.
\<close>

theorem parse_fasta_empty_identifier_counterexample:
  "splitlines ''>\<newline>AC\<newline>>b\<newline>GG'' = [''>'', ''AC'', ''>b'', ''GG'']
   \<and> header_id ''>'' \<noteq> header_id ''>b''
   \<and> parse_fasta ''>\<newline>AC\<newline>>b\<newline>GG'' = [(''b'', ''GG'')]
   \<and> length (parse_fasta ''>\<newline>AC\<newline>>b\<newline>GG'') \<noteq> 2"
  by (simp add: parse_fasta_def splitlines_ex3 is_header_def header_id_def strip_def isspace_def store_def)

text \<open>
  C10, as the code has it: the result is keyed by identifier. For the last header line
  bearing a given non-empty identifier, the result has exactly one entry for that
  identifier and its sequence is that of this last record, whatever earlier records bore
  the same identifier; identifiers never repeat in the result, the result has at most as
  many entries as there are header lines, and strictly fewer for the text
  \<open>>a, AC, >a, GG\<close>. For every text the result has no entry for the empty identifier, so
  header lines with an empty identifier yield no entry at all.
\<close>

theorem parse_fasta_last_record_wins:
  "(splitlines contenido = pre @ h # rest \<and> is_header h \<and> header_id h \<noteq> []
      \<and> (\<forall>l\<in>set rest. is_header l \<longrightarrow> header_id l \<noteq> header_id h)
    \<longrightarrow> map_of (parse_fasta contenido) (header_id h)
          = Some (concat (map strip (takeWhile (\<lambda>l. \<not> is_header l) rest)))
        \<and> filter (\<lambda>(k, v). k = header_id h) (parse_fasta contenido)
          = [(header_id h, concat (map strip (takeWhile (\<lambda>l. \<not> is_header l) rest)))])
   \<and> distinct (map fst (parse_fasta contenido))
   \<and> map_of (parse_fasta contenido) [] = None
   \<and> length (parse_fasta contenido) \<le> length (filter is_header (splitlines contenido))
   \<and> length (parse_fasta ''>a\<newline>AC\<newline>>a\<newline>GG'')
       < length (filter is_header (splitlines ''>a\<newline>AC\<newline>>a\<newline>GG''))"
proof -
  have n: "map_of (parse_fasta contenido) [] = None"
    unfolding parse_fasta_def by (rule loop_empty_key) simp
  have d: "distinct (map fst (parse_fasta contenido))"
    unfolding parse_fasta_def by (rule loop_distinct) simp
  have l: "length (parse_fasta contenido) \<le> length (filter is_header (splitlines contenido))"
    using loop_length [of "[]" "[]" "[]" "splitlines contenido"] by (simp add: parse_fasta_def)
  have s: "splitlines ''>a\<newline>AC\<newline>>a\<newline>GG'' = [''>a'', ''AC'', ''>a'', ''GG'']"
    by (simp add: splitlines_def is_linebreak_def)
  have e: "length (parse_fasta ''>a\<newline>AC\<newline>>a\<newline>GG'')
       < length (filter is_header (splitlines ''>a\<newline>AC\<newline>>a\<newline>GG''))"
    by (simp add: parse_fasta_def s is_header_def header_id_def strip_def isspace_def store_def)
  have m: "map_of (parse_fasta contenido) (header_id h)
          = Some (concat (map strip (takeWhile (\<lambda>l. \<not> is_header l) rest)))"
    if a: "splitlines contenido = pre @ h # rest" "is_header h" "header_id h \<noteq> []"
      "\<forall>l\<in>set rest. is_header l \<longrightarrow> header_id l \<noteq> header_id h"
  proof -
    from loop_prefix [OF a(2), of "[]" "[]" "[]" pre rest] obtain s where
      "parse_fasta_loop [] [] [] (pre @ h # rest) = parse_fasta_loop s (header_id h) [] rest" ..
    with loop_last [OF a(3,4), of s "[]"] show ?thesis by (simp add: parse_fasta_def a(1))
  qed
  from m single_entry [OF d] d n l e show ?thesis by blast
qed


theorem parse_fasta_last_record_wins_witness:
  "map_of (parse_fasta ''>a\<newline>AC\<newline>>b\<newline>T\<newline>>a\<newline>GG\<newline>G'') ''a'' = Some ''GGG''
   \<and> filter (\<lambda>(k, v). k = ''a'') (parse_fasta ''>a\<newline>AC\<newline>>b\<newline>T\<newline>>a\<newline>GG\<newline>G'') = [(''a'', ''GGG'')]
   \<and> map_of (parse_fasta ''>a\<newline>AC\<newline>>b\<newline>T\<newline>>a\<newline>GG\<newline>G'') [] = None"
  using parse_fasta_last_record_wins [of "''>a\<newline>AC\<newline>>b\<newline>T\<newline>>a\<newline>GG\<newline>G''" "[''>a'', ''AC'', ''>b'', ''T'']" "''>a''" "[''GG'', ''G'']"]
  by (simp add: splitlines_ex4 is_header_def header_id_def strip_def isspace_def)


text \<open>
  C10 as stated fails for the empty identifier: two header lines that both yield the
  identifier \<open>''\<close> give no entry for it, since the guard \<open>if current_id:\<close> skips the
  assignment.
\<close>

theorem parse_fasta_duplicate_empty_identifier_counterexample:
  "splitlines ''>\<newline>A\<newline>>\<newline>C'' = [''>'', ''A'', ''>'', ''C'']
   \<and> is_header ''>'' \<and> header_id ''>'' = []
   \<and> parse_fasta ''>\<newline>A\<newline>>\<newline>C'' = []
   \<and> map_of (parse_fasta ''>\<newline>A\<newline>>\<newline>C'') (header_id ''>'') = None"
  by (simp add: parse_fasta_def splitlines_def is_linebreak_def is_header_def header_id_def strip_def isspace_def store_def)

section \<open>Properties of the FASTQ reader\<close>

lemma read_loop_records:
  "read_loop i (map Inr records) d = Inr (process_all i (take (10000 - i) records) d)"
proof (induction records arbitrary: i d)
  case Nil
  then show ?case by simp
next
  case (Cons r records)
  show ?case
  proof (cases "i \<ge> 10000")
    case True
    then show ?thesis by simp
  next
    case False
    then have "10000 - i = Suc (10000 - (i + 1))" by simp
    then have "take (10000 - i) (r # records) = r # take (10000 - (i + 1)) records"
      by (simp only: take_Suc_Cons)
    with False Cons.IH [of "i + 1" "process_record i r d"] show ?thesis by simp
  qed
qed

lemma process_all_lengths:
  "lengths (process_all i rs d) = lengths d @ map (\<lambda>r. length (seq r)) rs"
  by (induction rs arbitrary: i d) (simp_all add: process_record_def)

lemma process_all_qualities:
  "qualities (process_all i rs d) = qualities d @ map phred_quality rs"
  by (induction rs arbitrary: i d) (simp_all add: process_record_def)

lemma process_all_ambiguous:
  "ambiguous_bases (process_all i rs d) = ambiguous_bases d @ map (\<lambda>r. count_list (seq r) CHR ''N'') rs"
  by (induction rs arbitrary: i d) (simp_all add: process_record_def)

lemma process_all_sequences:
  "all_sequences (process_all i rs d) = all_sequences d @ map seq rs"
  by (induction rs arbitrary: i d) (simp_all add: process_record_def)

lemma process_all_total:
  "total_reads (process_all i rs d) = (if rs = [] then total_reads d else i + length rs)"
  by (induction rs arbitrary: i d) (simp_all add: process_record_def)

lemma process_all_table:
  "nucleotide_counts (process_all i rs d) =
   foldl (\<lambda>t r. count_positions 0 (seq r) t) (nucleotide_counts d) rs"
  by (induction rs arbitrary: i d) (simp_all add: process_record_def)

lemma parse_fastq_records:
  "fst (parse_fastq tmp_path (map Inr records) tmp_files) =
   Inr (process_all 0 (take 10000 records) empty_data)"
  by (simp add: parse_fastq_def read_loop_records)

lemma dd_get_increment:
  "dd_get (increment t base pos) s =
   (if s = base then (dd_get t base)[pos := dd_get t base ! pos + 1] else dd_get t s)"
  by (simp add: increment_def dd_get_def)

lemma increment_rows:
  "(\<And>s. length (dd_get t s) = 150) \<Longrightarrow> length (dd_get (increment t base pos) s) = 150"
  by (simp add: dd_get_increment)

lemma increment_entry:
  assumes "\<And>s. length (dd_get t s) = 150" and "pos < 150"
  shows "dd_get (increment t base pos) s ! p =
         dd_get t s ! p + (if s = base \<and> p = pos then 1 else 0)"
  using assms(2) assms(1) [of base] by (simp add: dd_get_increment nth_list_update)

lemma count_positions_rows:
  "(\<And>s. length (dd_get t s) = 150) \<Longrightarrow> length (dd_get (count_positions pos str t) s) = 150"
proof (induction str arbitrary: pos t)
  case Nil
  then show ?case by simp
next
  case (Cons base rest)
  have "length (dd_get (if pos < 150 then increment t base pos else t) s') = 150" for s'
    using Cons.prems by (simp add: increment_rows)
  from Cons.IH [OF this] show ?case by simp
qed

lemma count_positions_entry:
  assumes "\<And>s. length (dd_get t s) = 150" and "p < 150"
  shows "dd_get (count_positions pos str t) s ! p =
         dd_get t s ! p + (if pos \<le> p \<and> p - pos < length str \<and> str ! (p - pos) = s then 1 else 0)"
  using assms(1)
proof (induction str arbitrary: pos t)
  case Nil
  then show ?case by simp
next
  case (Cons base rest)
  let ?t = "if pos < 150 then increment t base pos else t"
  have rows: "length (dd_get ?t s') = 150" for s'
    using Cons.prems by (simp add: increment_rows)
  have step: "dd_get ?t s ! p = dd_get t s ! p + (if s = base \<and> p = pos then 1 else 0)"
  proof (cases "pos < 150")
    case True
    with increment_entry [of t pos base s p] Cons.prems show ?thesis by simp
  next
    case False
    with assms(2) show ?thesis by simp
  qed
  have "dd_get (count_positions pos (base # rest) t) s ! p
        = dd_get ?t s ! p
          + (if pos + 1 \<le> p \<and> p - (pos + 1) < length rest \<and> rest ! (p - (pos + 1)) = s then 1 else 0)"
    using Cons.IH [of ?t "pos + 1", OF rows] by simp
  also have "\<dots> = dd_get t s ! p
      + ((if s = base \<and> p = pos then 1 else 0)
         + (if pos + 1 \<le> p \<and> p - (pos + 1) < length rest \<and> rest ! (p - (pos + 1)) = s then 1 else 0))"
    by (simp only: step add.assoc)
  also have "(if s = base \<and> p = pos then 1 else 0)
         + (if pos + 1 \<le> p \<and> p - (pos + 1) < length rest \<and> rest ! (p - (pos + 1)) = s then 1 else 0)
      = (if pos \<le> p \<and> p - pos < length (base # rest) \<and> (base # rest) ! (p - pos) = s then 1 else (0::nat))"
  proof (cases "p = pos")
    case True
    then show ?thesis by auto
  next
    case False
    show ?thesis
    proof (cases "pos < p")
      case True
      then have "p - pos = Suc (p - (pos + 1))" by simp
      with True show ?thesis by auto
    next
      case f: False
      with False show ?thesis by simp
    qed
  qed
  finally show ?case .
qed

lemma table_rows:
  "(\<And>s. length (dd_get t s) = 150) \<Longrightarrow>
   length (dd_get (foldl (\<lambda>t r. count_positions 0 (seq r) t) t rs) s) = 150"
proof (induction rs arbitrary: t)
  case Nil
  then show ?case by simp
next
  case (Cons r rs)
  have "length (dd_get (count_positions 0 (seq r) t) s') = 150" for s'
    using Cons.prems by (rule count_positions_rows)
  from Cons.IH [OF this] show ?case by simp
qed

lemma table_entry:
  assumes "\<And>s. length (dd_get t s) = 150" and "p < 150"
  shows "dd_get (foldl (\<lambda>t r. count_positions 0 (seq r) t) t rs) s ! p =
         dd_get t s ! p + length (filter (\<lambda>r. p < length (seq r) \<and> seq r ! p = s) rs)"
  using assms(1)
proof (induction rs arbitrary: t)
  case Nil
  then show ?case by simp
next
  case (Cons r rs)
  have rows: "length (dd_get (count_positions 0 (seq r) t) s') = 150" for s'
    using Cons.prems by (rule count_positions_rows)
  have "dd_get (count_positions 0 (seq r) t) s ! p =
        dd_get t s ! p + (if p < length (seq r) \<and> seq r ! p = s then 1 else 0)"
    using count_positions_entry [of t p 0 "seq r" s] Cons.prems assms(2) by simp
  with Cons.IH [OF rows] show ?case by simp
qed

lemma empty_rows: "length (dd_get Map.empty s) = 150"
  by (simp add: dd_get_def)

lemma empty_entry: "p < 150 \<Longrightarrow> dd_get Map.empty s ! p = 0"
  by (simp add: dd_get_def)

lemma symbols_sum:
  "(\<Sum>s\<in>(UNIV :: char set). length (filter (\<lambda>r. p < length (seq r) \<and> seq r ! p = s) rs))
   = length (filter (\<lambda>r. p < length (seq r)) rs)"
proof (induction rs)
  case Nil
  then show ?case by simp
next
  case (Cons r rs)
  have "(\<Sum>s\<in>(UNIV :: char set). length (filter (\<lambda>r. p < length (seq r) \<and> seq r ! p = s) (r # rs)))
        = (\<Sum>s\<in>(UNIV :: char set). (if p < length (seq r) \<and> seq r ! p = s then 1 else 0)
             + length (filter (\<lambda>r. p < length (seq r) \<and> seq r ! p = s) rs))"
    by (intro sum.cong) simp_all
  also have "\<dots> = (\<Sum>s\<in>(UNIV :: char set). if p < length (seq r) \<and> seq r ! p = s then 1 else 0)
             + length (filter (\<lambda>r. p < length (seq r)) rs)"
    by (simp only: sum.distrib Cons.IH)
  also have "(\<Sum>s\<in>(UNIV :: char set). if p < length (seq r) \<and> seq r ! p = s then 1 else 0)
             = (if p < length (seq r) then 1 else (0::nat))"
    by (cases "p < length (seq r)") simp_all
  finally show ?case by simp
qed


text \<open>
  C3: for every stream of well-formed records, \<open>total_reads\<close> is the smaller of the number
  of records and 10000; the lengths, qualities, ambiguous-base counts and raw sequences
  are those of the first 10000 records in order, and the whole result is the result for
  the first 10000 records alone, so the remainder contributes to no statistic.
\<close>

theorem parse_fastq_total_reads:
  "(case fst (parse_fastq tmp_path (map Inr records) tmp_files) of
      Inl e \<Rightarrow> False
    | Inr d \<Rightarrow>
        total_reads d = min (length records) 10000
        \<and> lengths d = map (\<lambda>r. length (seq r)) (take 10000 records)
        \<and> qualities d = map phred_quality (take 10000 records)
        \<and> ambiguous_bases d = map (\<lambda>r. count_list (seq r) CHR ''N'') (take 10000 records)
        \<and> all_sequences d = map seq (take 10000 records))
   \<and> fst (parse_fastq tmp_path (map Inr records) tmp_files)
       = fst (parse_fastq tmp_path (map Inr (take 10000 records)) tmp_files)"
  by (simp add: parse_fastq_records process_all_lengths process_all_qualities process_all_ambiguous
      process_all_sequences process_all_total empty_data_def min_def)

theorem parse_fastq_total_reads_witness:
  "(case fst (parse_fastq ''upload.fastq''
          (map Inr [\<lparr>rec_id = ''r1'', seq = ''CA'', phred_quality = [30, 31]\<rparr>,
                    \<lparr>rec_id = ''r2'', seq = ''GNT'', phred_quality = [30, 30, 12]\<rparr>]) []) of
        Inl e \<Rightarrow> False
      | Inr d \<Rightarrow> total_reads d = 2 \<and> lengths d = [2, 3] \<and> ambiguous_bases d = [0, 1])"
  using parse_fastq_total_reads [where tmp_path = "''upload.fastq''" and records =
      "[\<lparr>rec_id = ''r1'', seq = ''CA'', phred_quality = [30, 31]\<rparr>,
        \<lparr>rec_id = ''r2'', seq = ''GNT'', phred_quality = [30, 30, 12]\<rparr>]" and tmp_files = "[]"]
  by (simp split: sum.splits)

text \<open>
  C4: after processing any stream of well-formed records, every row of the nucleotide table
  has exactly 150 slots, so positions from 150 on are not recorded; for every symbol \<open>s\<close>
  and position \<open>p < 150\<close> the entry at \<open>(s, p)\<close> is the number of sampled records (the
  first 10000) that are longer than \<open>p\<close> and have \<open>s\<close> at position \<open>p\<close>; and the entries at
  \<open>p\<close> summed over all symbols give the number of sampled records longer than \<open>p\<close>.
\<close>

theorem nucleotide_table_counts:
  "(case fst (parse_fastq tmp_path (map Inr records) tmp_files) of
      Inl e \<Rightarrow> False
    | Inr d \<Rightarrow>
        length (dd_get (nucleotide_counts d) s) = 150
        \<and> (p < 150 \<longrightarrow>
             dd_get (nucleotide_counts d) s ! p
               = length (filter (\<lambda>r. p < length (seq r) \<and> seq r ! p = s) (take 10000 records))
             \<and> (\<Sum>s\<in>UNIV. dd_get (nucleotide_counts d) s ! p)
               = length (filter (\<lambda>r. p < length (seq r)) (take 10000 records))))"
proof -
  let ?t = "foldl (\<lambda>t r. count_positions 0 (seq r) t) Map.empty (take 10000 records)"
  have e: "dd_get ?t s ! p = length (filter (\<lambda>r. p < length (seq r) \<and> seq r ! p = s) (take 10000 records))"
    if "p < 150" for s
    using table_entry [OF empty_rows that, of "take 10000 records" s] that by (simp add: empty_entry)
  have "(\<Sum>s\<in>UNIV. dd_get ?t s ! p) = length (filter (\<lambda>r. p < length (seq r)) (take 10000 records))"
    if "p < 150"
    using that by (simp add: e symbols_sum)
  with e [of s] table_rows [OF empty_rows, of "take 10000 records" s] show ?thesis
    by (simp add: parse_fastq_records process_all_table empty_data_def)
qed

theorem nucleotide_table_counts_witness:
  "(1::nat) < 150
   \<and> (case fst (parse_fastq ''upload.fastq''
          (map Inr [\<lparr>rec_id = ''r1'', seq = ''CA'', phred_quality = [30, 31]\<rparr>,
                    \<lparr>rec_id = ''r2'', seq = ''GAT'', phred_quality = [30, 30, 12]\<rparr>]) []) of
        Inl e \<Rightarrow> False
      | Inr d \<Rightarrow>
          length (dd_get (nucleotide_counts d) CHR ''A'') = 150
          \<and> dd_get (nucleotide_counts d) CHR ''A'' ! 1 = 2
          \<and> (\<Sum>s\<in>UNIV. dd_get (nucleotide_counts d) s ! 1) = 2)"
  using nucleotide_table_counts [where tmp_path = "''upload.fastq''" and records =
      "[\<lparr>rec_id = ''r1'', seq = ''CA'', phred_quality = [30, 31]\<rparr>,
        \<lparr>rec_id = ''r2'', seq = ''GAT'', phred_quality = [30, 30, 12]\<rparr>]" and tmp_files = "[]" and s = "CHR ''A''" and p = 1]
  by (simp split: sum.splits)


text \<open>
  C9 does not hold on the path where the parser raises: the stream below yields one record
  and then a format error; \<open>parse_fastq\<close> ends with the error and the temporary file is
  still there. On the stream without the error the file is removed.
\<close>

theorem parse_fastq_temp_file_left_on_error:
  "parse_fastq ''/tmp/tmpk3.fastq''
     [Inr \<lparr>rec_id = ''r1'', seq = ''ACGT'', phred_quality = [30, 30, 30, 30]\<rparr>, Inl ValueError] []
     = (Inl ValueError, [''/tmp/tmpk3.fastq''])
   \<and> snd (parse_fastq ''/tmp/tmpk3.fastq''
        [Inr \<lparr>rec_id = ''r1'', seq = ''ACGT'', phred_quality = [30, 30, 30, 30]\<rparr>] []) = []"
  by (simp add: parse_fastq_def)


section \<open>Properties of the derived analytics\<close>

lemma counter_add_distinct:
  "distinct (map fst d) \<Longrightarrow> distinct (map fst (counter_add d x))"
  by (simp add: counter_add_def distinct_update)

lemma Counter_snoc: "Counter (xs @ [x]) = counter_add (Counter xs) x"
  by (simp add: Counter_def)

lemma Counter_distinct: "distinct (map fst (Counter xs))"
proof (induction xs rule: rev_induct)
  case Nil
  then show ?case by (simp add: Counter_def)
next
  case (snoc x xs)
  then show ?case by (simp add: Counter_snoc counter_add_distinct)
qed

lemma Counter_lookup:
  "map_of (Counter xs) y = (if count_list xs y = 0 then None else Some (count_list xs y))"
proof (induction xs rule: rev_induct)
  case Nil
  then show ?case by (simp add: Counter_def)
next
  case (snoc x xs)
  then show ?case by (auto simp: Counter_snoc counter_add_def update_conv')
qed

lemma Counter_length: "length (Counter xs) \<le> length xs"
proof (induction xs rule: rev_induct)
  case Nil
  then show ?case by (simp add: Counter_def)
next
  case (snoc x xs)
  have "length (counter_add (Counter xs) x) \<le> Suc (length (Counter xs))"
    unfolding counter_add_def by (rule update_length)
  with snoc show ?case by (simp add: Counter_snoc)
qed

lemma filter_keys_card:
  assumes "distinct (map fst al)"
  shows "length (filter P al) = card {k. \<exists>v. map_of al k = Some v \<and> P (k, v)}"
proof -
  from assms have d: "distinct al" and inj: "inj_on fst (set al)"
    by (simp_all add: distinct_map)
  have "distinct (filter P al)" using d by (rule distinct_filter)
  then have "length (filter P al) = card (set (filter P al))"
    by (rule distinct_card [symmetric])
  also have "\<dots> = card (fst ` set (filter P al))"
    by (rule card_image [symmetric]) (rule inj_on_subset [OF inj], auto)
  also have "fst ` set (filter P al) = {k. \<exists>v. map_of al k = Some v \<and> P (k, v)}"
    using assms by (auto simp: image_iff)
  finally show ?thesis .
qed

lemma duplicates_count:
  "length (filter (\<lambda>(s, count). count > 1) (Counter xs)) = card {s \<in> set xs. 1 < count_list xs s}"
proof -
  have "{k. \<exists>v. map_of (Counter xs) k = Some v \<and> (case (k, v) of (s, count) \<Rightarrow> count > 1)}
        = {s \<in> set xs. 1 < count_list xs s}"
    by (auto simp: Counter_lookup count_list_0_iff split: if_splits)
  with filter_keys_card [OF Counter_distinct, of "\<lambda>(s, count). count > 1" xs] show ?thesis by simp
qed

lemma percentage_pos:
  "0 < n \<Longrightarrow> percentage k n = Inr (fl (fl (of_nat k / of_nat n) * 100))"
  by (simp add: percentage_def py_truediv_def)

lemma percentage_zero: "percentage k 0 = Inl ZeroDivisionError"
  by (simp add: percentage_def py_truediv_def)

lemma find_duplicates_formula:
  "sequences \<noteq> [] \<Longrightarrow>
   find_duplicates sequences =
     Inr (fl (fl (of_nat (card {s \<in> set sequences. 1 < count_list sequences s})
                  / of_nat (length sequences)) * 100))"
  unfolding find_duplicates_def Let_def duplicates_count by (simp add: percentage_pos)

lemma distinct_count_le_1: "distinct xs \<Longrightarrow> count_list xs y \<le> 1"
  by (induction xs) auto

lemma fl_tenth: "fl (fl (1 / 10) * 100) = 10"
  by code_simp

lemma fl_zero: "fl 0 = 0"
  by (simp add: fl_def)

lemma count_removeAll_other: "y \<noteq> x \<Longrightarrow> count_list (removeAll x xs) y = count_list xs y"
  by (induction xs) auto

lemma count_le_1_others:
  "distinct (removeAll x xs) \<Longrightarrow> y \<noteq> x \<Longrightarrow> count_list xs y \<le> 1"
  using distinct_count_le_1 [of "removeAll x xs" y] by (simp add: count_removeAll_other)

lemma ten_reads_others:
  "distinct (removeAll ''AC'' [''AC'', ''GT'', ''AC'', ''TT'', ''GG'', ''AC'', ''CA'', ''TG'', ''AA'', ''CC''])"
  by simp

lemma init_counts_fold_lookup:
  "map_of (foldl (\<lambda>d adapter. AList.update adapter 0 d) d0 adapters) a =
   (if a \<in> set adapters then Some 0 else map_of d0 a)"
  by (induction adapters arbitrary: d0) (simp_all add: update_conv')

lemma init_counts_fold_distinct:
  "distinct (map fst d0) \<Longrightarrow>
   distinct (map fst (foldl (\<lambda>d adapter. AList.update adapter (0::nat) d) d0 adapters))"
  by (induction adapters arbitrary: d0) (simp_all add: distinct_update)

lemma init_counts_lookup:
  "map_of (init_counts adapters) a = (if a \<in> set adapters then Some 0 else None)"
  by (simp add: init_counts_def init_counts_fold_lookup)

lemma init_counts_distinct: "distinct (map fst (init_counts adapters))"
  unfolding init_counts_def by (rule init_counts_fold_distinct) simp

lemma count_in_seq_distinct:
  "distinct (map fst adapter_counts) \<Longrightarrow> distinct (map fst (count_in_seq s adapters adapter_counts))"
  by (induction adapters arbitrary: adapter_counts) (simp_all add: distinct_map_entry)

lemma count_all_distinct:
  "distinct (map fst adapter_counts) \<Longrightarrow>
   distinct (map fst (count_all sequences adapters adapter_counts))"
  by (induction sequences arbitrary: adapter_counts) (simp_all add: count_in_seq_distinct)

lemma count_in_seq_lookup:
  "distinct adapters \<Longrightarrow>
   map_of (count_in_seq s adapters adapter_counts) a =
   map_option (\<lambda>k. if a \<in> set adapters \<and> contains a s then Suc k else k) (map_of adapter_counts a)"
proof (induction adapters arbitrary: adapter_counts)
  case Nil
  then show ?case by (simp add: option.map_ident)
next
  case (Cons b adapters)
  then have b: "b \<notin> set adapters" and d: "distinct adapters" by simp_all
  show ?case
  proof (cases "map_of adapter_counts a")
    case None
    then show ?thesis by (cases "b = a") (simp_all add: Cons.IH [OF d] map_of_map_entry)
  next
    case (Some k)
    show ?thesis
    proof (cases "b = a")
      case True
      with b Some show ?thesis by (simp add: Cons.IH [OF d] map_of_map_entry)
    next
      case False
      with Some show ?thesis
        by (cases "a \<in> set adapters \<and> contains a s") (simp_all add: Cons.IH [OF d] map_of_map_entry)
    qed
  qed
qed

lemma count_all_lookup:
  "distinct adapters \<Longrightarrow>
   map_of (count_all sequences adapters adapter_counts) a =
   map_option (\<lambda>k. if a \<in> set adapters then k + length (filter (contains a) sequences) else k)
     (map_of adapter_counts a)"
proof (induction sequences arbitrary: adapter_counts)
  case Nil
  then show ?case
    by (cases "map_of adapter_counts a"; cases "a \<in> set adapters") simp_all
next
  case (Cons s sequences)
  show ?case
  proof (cases "map_of adapter_counts a")
    case None
    then show ?thesis by (simp add: Cons.IH [OF Cons.prems] count_in_seq_lookup [OF Cons.prems])
  next
    case (Some k)
    then show ?thesis
      by (cases "a \<in> set adapters"; cases "contains a s")
        (simp_all add: Cons.IH [OF Cons.prems] count_in_seq_lookup [OF Cons.prems])
  qed
qed

lemma final_counts_bound:
  assumes "distinct adapters" and "(a, k) \<in> set (count_all sequences adapters (init_counts adapters))"
  shows "a \<in> set adapters \<and> k = length (filter (contains a) sequences)"
proof -
  have "distinct (map fst (count_all sequences adapters (init_counts adapters)))"
    by (rule count_all_distinct) (rule init_counts_distinct)
  with assms(2) have "map_of (count_all sequences adapters (init_counts adapters)) a = Some k"
    by simp
  then show ?thesis
    by (simp add: count_all_lookup [OF assms(1)] init_counts_lookup split: if_splits)
qed

lemma to_percentages_pos:
  "0 < n \<Longrightarrow>
   to_percentages n al = Inr (map (\<lambda>(a, k). (a, fl (fl (of_nat k / of_nat n) * 100))) al)"
  by (induction al) (auto simp: percentage_pos)

lemma to_percentages_zero:
  "al \<noteq> [] \<Longrightarrow> to_percentages 0 al = Inl ZeroDivisionError"
  by (cases al) (auto simp: percentage_zero)

lemma detect_adapters_range:
  assumes "sequences \<noteq> []" and "distinct adapters"
  shows "\<exists>result. detect_adapters sequences adapters = Inr result
           \<and> (\<forall>(a, p)\<in>set result.
                 a \<in> set adapters
                 \<and> p = fl (fl (of_nat (length (filter (contains a) sequences))
                              / of_nat (length sequences)) * 100)
                 \<and> 0 \<le> p \<and> p \<le> 100)"
proof -
  let ?n = "length sequences"
  let ?al = "count_all sequences adapters (init_counts adapters)"
  let ?f = "\<lambda>(a, k). (a, fl (fl (of_nat k / of_nat ?n) * 100))"
  from assms(1) have n: "0 < ?n" by simp
  then have r: "detect_adapters sequences adapters = Inr (map ?f ?al)"
    by (simp add: detect_adapters_def to_percentages_pos)
  have "\<forall>x\<in>set (map ?f ?al). case x of (a, p) \<Rightarrow>
          a \<in> set adapters
          \<and> p = fl (fl (of_nat (length (filter (contains a) sequences)) / of_nat ?n) * 100)
          \<and> 0 \<le> p \<and> p \<le> 100"
  proof
    fix x
    assume "x \<in> set (map ?f ?al)"
    then obtain a k where k: "(a, k) \<in> set ?al" and x: "x = (a, fl (fl (of_nat k / of_nat ?n) * 100))"
      by auto
    from final_counts_bound [OF assms(2) k]
    have a: "a \<in> set adapters" and ke: "k = length (filter (contains a) sequences)" by simp_all
    have "k \<le> ?n" unfolding ke by (rule length_filter_le)
    from percent_bounds [OF this n] a ke x
    show "case x of (a, p) \<Rightarrow>
          a \<in> set adapters
          \<and> p = fl (fl (of_nat (length (filter (contains a) sequences)) / of_nat ?n) * 100)
          \<and> 0 \<le> p \<and> p \<le> 100" by simp
  qed
  with r show ?thesis by blast
qed

lemma find_duplicates_range:
  assumes "sequences \<noteq> []"
  shows "\<exists>d. find_duplicates sequences = Inr d \<and> 0 \<le> d \<and> d \<le> 100"
proof -
  let ?k = "length (filter (\<lambda>(s, count). count > 1) (Counter sequences))"
  from assms have n: "0 < length sequences" by simp
  have "?k \<le> length (Counter sequences)" by (rule length_filter_le)
  also have "\<dots> \<le> length sequences" by (rule Counter_length)
  finally have "?k \<le> length sequences" .
  from percent_bounds [OF this n] n show ?thesis
    by (simp add: find_duplicates_def Let_def percentage_pos)
qed

lemma default_adapters_distinct: "distinct default_adapters"
  by (simp add: default_adapters_def)


text \<open>
  C1: for every non-empty list of sequences \<open>find_duplicates\<close> returns the number of
  distinct sequences that occur more than once, divided by the number of records, times
  100 (quotient and product in double precision). When the sequences are pairwise distinct
  the result is 0; when the list has 10 records, one sequence occurs 3 times and every
  other sequence at most once, the result is exactly 10.
\<close>

theorem find_duplicates_percentage:
  "(sequences \<noteq> [] \<longrightarrow>
      find_duplicates sequences =
        Inr (fl (fl (of_nat (card {s \<in> set sequences. 1 < count_list sequences s})
                     / of_nat (length sequences)) * 100)))
   \<and> (sequences \<noteq> [] \<and> distinct sequences \<longrightarrow> find_duplicates sequences = Inr 0)
   \<and> (length sequences = 10 \<and> count_list sequences x = 3
        \<and> (\<forall>y. y \<noteq> x \<longrightarrow> count_list sequences y \<le> 1)
      \<longrightarrow> find_duplicates sequences = Inr 10)"
proof (intro conjI impI)
  assume "sequences \<noteq> []"
  then show "find_duplicates sequences =
        Inr (fl (fl (of_nat (card {s \<in> set sequences. 1 < count_list sequences s})
                     / of_nat (length sequences)) * 100))"
    by (rule find_duplicates_formula)
next
  assume a: "sequences \<noteq> [] \<and> distinct sequences"
  then have "distinct sequences" ..
  then have "count_list sequences s \<le> 1" for s
    by (rule distinct_count_le_1)
  then have "{s \<in> set sequences. 1 < count_list sequences s} = {}"
    by (auto simp: not_less)
  then have c: "card {s \<in> set sequences. 1 < count_list sequences s} = 0"
    by (simp only: card.empty)
  from a have ne: "sequences \<noteq> []" ..
  show "find_duplicates sequences = Inr 0"
    by (simp only: find_duplicates_formula [OF ne] c) (simp add: fl_zero)
next
  assume a: "length sequences = 10 \<and> count_list sequences x = 3
        \<and> (\<forall>y. y \<noteq> x \<longrightarrow> count_list sequences y \<le> 1)"
  then have ne: "sequences \<noteq> []" by auto
  from a have "count_list sequences x \<noteq> 0" by simp
  then have "x \<in> set sequences" by (simp only: count_list_0_iff not_not)
  moreover from a have "\<not> 1 < count_list sequences y" if "y \<noteq> x" for y
    using that by (simp add: not_less)
  ultimately have "{s \<in> set sequences. 1 < count_list sequences s} = {x}"
    using a by auto
  then have c: "card {s \<in> set sequences. 1 < count_list sequences s} = 1"
    by (simp only: card.empty card.insert finite.emptyI) simp
  from a have n: "length sequences = 10" ..
  show "find_duplicates sequences = Inr 10"
    by (simp only: find_duplicates_formula [OF ne] c n) (simp add: fl_tenth)
qed

theorem find_duplicates_percentage_witness:
  "find_duplicates [''AC'', ''GT'', ''AC'', ''TT'', ''GG'', ''AC'', ''CA'', ''TG'', ''AA'', ''CC''] = Inr 10
   \<and> find_duplicates [''AC'', ''GT'', ''TT''] = Inr 0"
proof -
  let ?xs = "[''AC'', ''GT'', ''AC'', ''TT'', ''GG'', ''AC'', ''CA'', ''TG'', ''AA'', ''CC'']"
  have "length ?xs = 10" and "count_list ?xs ''AC'' = 3" by simp_all
  moreover have "\<forall>y. y \<noteq> ''AC'' \<longrightarrow> count_list ?xs y \<le> 1"
    using count_le_1_others [OF ten_reads_others] by blast
  ultimately have "find_duplicates ?xs = Inr 10"
    using find_duplicates_percentage [of ?xs "''AC''"] by blast
  moreover have "[''AC'', ''GT'', ''TT''] \<noteq> [] \<and> distinct [''AC'', ''GT'', ''TT'']" by simp
  then have "find_duplicates [''AC'', ''GT'', ''TT''] = Inr 0"
    using find_duplicates_percentage [of "[''AC'', ''GT'', ''TT'']"] by blast
  ultimately show ?thesis by (rule conjI)
qed

text \<open>
  On a non-empty list, and with adapters that are pairwise distinct as the default ones
  are, every percentage of \<open>detect_adapters\<close> and the percentage of \<open>find_duplicates\<close> lie
  between 0 and 100. On the empty list both functions divide by the record count.
\<close>

lemma analytics_nonempty_range:
  "(sequences \<noteq> [] \<and> distinct adapters \<longrightarrow>
      (case detect_adapters sequences adapters of
         Inl e \<Rightarrow> False
       | Inr result \<Rightarrow> \<forall>(a, p)\<in>set result. a \<in> set adapters \<and> 0 \<le> p \<and> p \<le> 100)
      \<and> (case find_duplicates sequences of
           Inl e \<Rightarrow> False
         | Inr d \<Rightarrow> 0 \<le> d \<and> d \<le> 100))
   \<and> distinct default_adapters
   \<and> detect_adapters [] default_adapters = Inl ZeroDivisionError
   \<and> find_duplicates [] = Inl ZeroDivisionError"
proof -
  have "case detect_adapters sequences adapters of
         Inl e \<Rightarrow> False
       | Inr result \<Rightarrow> \<forall>(a, p)\<in>set result. a \<in> set adapters \<and> 0 \<le> p \<and> p \<le> 100"
    if "sequences \<noteq> []" "distinct adapters"
    using detect_adapters_range [OF that] by auto
  moreover have "case find_duplicates sequences of Inl e \<Rightarrow> False | Inr d \<Rightarrow> 0 \<le> d \<and> d \<le> 100"
    if "sequences \<noteq> []"
    using find_duplicates_range [OF that] by auto
  moreover have "detect_adapters [] default_adapters = Inl ZeroDivisionError"
    by (simp add: detect_adapters_def default_adapters_def init_counts_def percentage_zero)
  moreover have "find_duplicates [] = Inl ZeroDivisionError"
    by (simp add: find_duplicates_def Counter_def percentage_zero)
  ultimately show ?thesis using default_adapters_distinct by blast
qed


text \<open>
  C2 does not hold for the empty list: with zero records \<open>detect_adapters\<close> and
  \<open>find_duplicates\<close> both raise \<open>ZeroDivisionError\<close> instead of returning zero
  percentages.
\<close>

theorem analytics_raise_on_empty_input:
  "detect_adapters [] default_adapters = Inl ZeroDivisionError
   \<and> find_duplicates [] = Inl ZeroDivisionError"
  by (simp add: detect_adapters_def default_adapters_def init_counts_def find_duplicates_def
      Counter_def percentage_def py_truediv_def)

end
